theory Spec2Isabelle
  imports Main
begin

section \<open>The application lifecycle shell of \<^verbatim>\<open>main.js\<close>\<close>

text \<open>
  The program is the 25 lines of \<^verbatim>\<open>src/main.js\<close>: a function \<^verbatim>\<open>createWindow\<close>, a
  continuation attached to \<^verbatim>\<open>app.whenReady()\<close>, a listener for \<^verbatim>\<open>'activate'\<close> that the
  continuation registers, and a listener for \<^verbatim>\<open>'window-all-closed'\<close>.  Everything it
  does is a call to the host framework (Electron), which is not part of the repository.
  The host is therefore modelled as a recording double: a record that holds the open
  windows, the listeners registered so far, a log of the commands it received, and a
  plan of the calls on which it fails.  The functions of the source are translated one
  to one on top of it, with exceptions as values.  A window constructor that fails
  throws; a content load that fails rejects the promise it returns, as Electron's
  \<^verbatim>\<open>loadFile\<close> does.
\<close>

subsection \<open>Process environment\<close>

text \<open>
  \<^verbatim>\<open>process.platform\<close> and \<^verbatim>\<open>__dirname\<close> are strings the process is started with.
  \<^verbatim>\<open>path.join\<close> belongs to the Node library; it is taken as a parameter.
\<close>

record env =
  platform :: string
  dirname :: string
  path_join :: "string \<Rightarrow> string \<Rightarrow> string"

subsection \<open>Data of the host framework\<close>

record web_preferences =
  preload :: string

record browser_window_options =
  width :: int
  height :: int
  webPreferences :: web_preferences

record browser_window =
  win_id :: nat
  win_options :: browser_window_options
  loaded :: "string option"

text \<open>The commands the shell sends to the host; \<open>LoadFile\<close> names its receiver.\<close>

datatype call =
    NewBrowserWindow browser_window_options
  | LoadFile nat string
  | AppQuit

text \<open>The one class of errors: a host call failed.\<close>

datatype error = HostFailure call

text \<open>What \<^verbatim>\<open>win.loadFile\<close> returns: a promise, settled one way or the other.\<close>

datatype promise = Fulfilled | Rejected error

text \<open>The three anonymous functions of the source that the host calls back.\<close>

datatype callback = ReadyContinuation | ActivateListener | WindowAllClosedListener

text \<open>
  The host double.  \<open>faults\<close> lists the positions of the command log at which the host
  fails: a window creation there throws, a content load there rejects its promise;
  \<open>observed\<close> records every
  window count the shell has read; \<open>ready_callbacks\<close> are the continuations waiting on
  the promise of \<^verbatim>\<open>app.whenReady()\<close>.
\<close>

record host =
  windows :: "browser_window list"
  next_id :: nat
  calls :: "call list"
  faults :: "nat list"
  observed :: "nat list"
  listeners :: "(string \<times> callback) list"
  ready_callbacks :: "callback list"
  is_ready :: bool
  exited :: bool

definition initial_host :: "nat list \<Rightarrow> host" where
  "initial_host fs =
     \<lparr>windows = [], next_id = 0, calls = [], faults = fs, observed = [],
      listeners = [], ready_callbacks = [], is_ready = False, exited = False\<rparr>"

subsection \<open>Calls of the host framework\<close>

definition host_fails :: "host \<Rightarrow> bool" where
  "host_fails h = (length (calls h) \<in> set (faults h))"

text \<open>\<^verbatim>\<open>new BrowserWindow(opts)\<close>: logged, then either throws or opens a window.\<close>

definition new_BrowserWindow :: "browser_window_options \<Rightarrow> host \<Rightarrow> (error + nat) \<times> host" where
  "new_BrowserWindow opts h =
     (let h1 = h\<lparr>calls := calls h @ [NewBrowserWindow opts]\<rparr> in
      if host_fails h then (Inl (HostFailure (NewBrowserWindow opts)), h1)
      else (Inr (next_id h),
            h1\<lparr>windows := windows h @ [\<lparr>win_id = next_id h, win_options = opts, loaded = None\<rparr>],
               next_id := Suc (next_id h)\<rparr>))"

text \<open>
  \<^verbatim>\<open>win.loadFile(file)\<close>: logged; it never throws.  It returns a promise, rejected when
  the load fails and fulfilled when the document is loaded.
\<close>

definition loadFile :: "nat \<Rightarrow> string \<Rightarrow> host \<Rightarrow> promise \<times> host" where
  "loadFile win file h =
     (let h1 = h\<lparr>calls := calls h @ [LoadFile win file]\<rparr> in
      if host_fails h then (Rejected (HostFailure (LoadFile win file)), h1)
      else (Fulfilled,
            h1\<lparr>windows := map (\<lambda>w. if win_id w = win then w\<lparr>loaded := Some file\<rparr> else w)
                              (windows h)\<rparr>))"

text \<open>\<^verbatim>\<open>BrowserWindow.getAllWindows()\<close>: the open windows; the double notes their count.\<close>

definition getAllWindows :: "host \<Rightarrow> browser_window list \<times> host" where
  "getAllWindows h = (windows h, h\<lparr>observed := observed h @ [length (windows h)]\<rparr>)"

text \<open>\<^verbatim>\<open>app.quit()\<close>: logged; the process ends.\<close>

definition app_quit :: "host \<Rightarrow> host" where
  "app_quit h = h\<lparr>calls := calls h @ [AppQuit], exited := True\<rparr>"

text \<open>\<^verbatim>\<open>app.on(name, cb)\<close> and \<^verbatim>\<open>app.whenReady().then(cb)\<close>.\<close>

definition app_on :: "string \<Rightarrow> callback \<Rightarrow> host \<Rightarrow> host" where
  "app_on name cb h = h\<lparr>listeners := listeners h @ [(name, cb)]\<rparr>"

definition whenReady_then :: "callback \<Rightarrow> host \<Rightarrow> host" where
  "whenReady_then cb h = h\<lparr>ready_callbacks := ready_callbacks h @ [cb]\<rparr>"

subsection \<open>The source\<close>

text \<open>Lines 6 to 12: the object literal passed to the window constructor.\<close>

definition window_options :: "env \<Rightarrow> browser_window_options" where
  "window_options e =
     \<lparr>width = 800, height = 600,
      webPreferences = \<lparr>preload = path_join e (dirname e) ''preload.js''\<rparr>\<rparr>"

text \<open>
  Lines 5 to 14.  Nothing is caught: a throw of the constructor skips the load.  Line 13
  is an expression statement: the promise of \<^verbatim>\<open>loadFile\<close> is dropped, neither awaited
  nor given a handler, so the function returns normally whichever way it settles.
\<close>

definition createWindow :: "env \<Rightarrow> host \<Rightarrow> (error + unit) \<times> host" where
  "createWindow e h =
     (case new_BrowserWindow (window_options e) h of
        (Inl err, h1) \<Rightarrow> (Inl err, h1)
      | (Inr win, h1) \<Rightarrow>
          (case loadFile win ''dist/index.html'' h1 of
             (p, h2) \<Rightarrow> (Inr (), h2)))"

text \<open>Lines 15 to 21 (the continuation and the listener it registers) and 22 to 25.\<close>

fun call_callback :: "env \<Rightarrow> callback \<Rightarrow> host \<Rightarrow> (error + unit) \<times> host" where
  "call_callback e ReadyContinuation h =
     (case createWindow e h of
        (Inl err, h1) \<Rightarrow> (Inl err, h1)
      | (Inr u, h1) \<Rightarrow> (Inr (), app_on ''activate'' ActivateListener h1))"
| "call_callback e ActivateListener h =
     (case getAllWindows h of
        (ws, h1) \<Rightarrow> if length ws = 0 then createWindow e h1 else (Inr (), h1))"
| "call_callback e WindowAllClosedListener h =
     (if platform e \<noteq> ''darwin'' then (Inr (), app_quit h) else (Inr (), h))"

text \<open>The top level of the module: lines 15 and 22.\<close>

definition main :: "host \<Rightarrow> host" where
  "main h = app_on ''window-all-closed'' WindowAllClosedListener
              (whenReady_then ReadyContinuation h)"

definition boot :: "nat list \<Rightarrow> host" where
  "boot fs = main (initial_host fs)"

subsection \<open>The event loop of the host\<close>

text \<open>Callbacks run in order; an exception of one ends the dispatch.\<close>

fun call_all :: "env \<Rightarrow> callback list \<Rightarrow> host \<Rightarrow> (error + unit) \<times> host" where
  "call_all e [] h = (Inr (), h)"
| "call_all e (cb # cbs) h =
     (case call_callback e cb h of
        (Inl err, h1) \<Rightarrow> (Inl err, h1)
      | (Inr u, h1) \<Rightarrow> call_all e cbs h1)"

definition listeners_for :: "string \<Rightarrow> host \<Rightarrow> callback list" where
  "listeners_for name h = map snd (filter (\<lambda>nc. fst nc = name) (listeners h))"

definition emit :: "env \<Rightarrow> string \<Rightarrow> host \<Rightarrow> (error + unit) \<times> host" where
  "emit e name h = call_all e (listeners_for name h) h"

datatype event = Ready | Activate | WindowAllClosed

text \<open>
  \<open>Ready\<close> resolves the promise once: the waiting continuations run, and a later
  \<open>Ready\<close> finds none.  \<open>WindowAllClosed\<close> is the host closing its last window: the
  window set is empty when the listeners run.
\<close>

fun deliver :: "env \<Rightarrow> event \<Rightarrow> host \<Rightarrow> (error + unit) \<times> host" where
  "deliver e Ready h =
     (if is_ready h then (Inr (), h)
      else call_all e (ready_callbacks h) (h\<lparr>is_ready := True, ready_callbacks := []\<rparr>))"
| "deliver e Activate h = emit e ''activate'' h"
| "deliver e WindowAllClosed h = emit e ''window-all-closed'' (h\<lparr>windows := []\<rparr>)"

text \<open>
  A run delivers events one after the other.  After \<^verbatim>\<open>app.quit()\<close> the process is gone
  and nothing more is delivered; an uncaught exception ends the run with that error.
\<close>

fun run :: "env \<Rightarrow> event list \<Rightarrow> host \<Rightarrow> (error + unit) \<times> host" where
  "run e [] h = (Inr (), h)"
| "run e (ev # evs) h =
     (if exited h then (Inr (), h)
      else case deliver e ev h of
             (Inl err, h1) \<Rightarrow> (Inl err, h1)
           | (Inr u, h1) \<Rightarrow> run e evs h1)"

subsection \<open>What a run shows to the outside\<close>

text \<open>
  The calls issued and the window counts read between two states of the host, and the
  commands of a call log with the receiver of a content load left out.
\<close>

definition issued :: "host \<Rightarrow> host \<Rightarrow> call list" where
  "issued h h' = drop (length (calls h)) (calls h')"

definition noted :: "host \<Rightarrow> host \<Rightarrow> nat list" where
  "noted h h' = drop (length (observed h)) (observed h')"

datatype command = CreateWindow browser_window_options | LoadDocument string | Quit

fun command_of :: "call \<Rightarrow> command" where
  "command_of (NewBrowserWindow opts) = CreateWindow opts"
| "command_of (LoadFile win file) = LoadDocument file"
| "command_of AppQuit = Quit"

definition commands :: "env \<Rightarrow> event list \<Rightarrow> host \<Rightarrow> command list" where
  "commands e evs h = map command_of (issued h (snd (run e evs h)))"

definition observations :: "env \<Rightarrow> event list \<Rightarrow> host \<Rightarrow> nat list" where
  "observations e evs h = noted h (snd (run e evs h))"

subsection \<open>Invariants of the shell\<close>

text \<open>
  What holds in every state a run can reach from the loaded module: at most one open
  window; the close listener registered, and the activate listener at most once; the
  continuation still waiting exactly as long as the host is not ready, with no window
  open before that; the process ended exactly when a quit was issued.  \<open>shell_ok\<close>
  adds what holds as long as no exception escaped: a ready host has the activate
  listener.
\<close>

definition shell_inv :: "host \<Rightarrow> bool" where
  "shell_inv h \<longleftrightarrow>
     length (windows h) \<le> 1
   \<and> (listeners h = [(''window-all-closed'', WindowAllClosedListener)]
      \<or> listeners h = [(''window-all-closed'', WindowAllClosedListener), (''activate'', ActivateListener)])
   \<and> (if is_ready h then ready_callbacks h = []
      else ready_callbacks h = [ReadyContinuation] \<and> windows h = []
         \<and> listeners h = [(''window-all-closed'', WindowAllClosedListener)])
   \<and> exited h = (AppQuit \<in> set (calls h))"

definition shell_ok :: "host \<Rightarrow> bool" where
  "shell_ok h \<longleftrightarrow>
     shell_inv h
   \<and> (is_ready h \<longrightarrow> listeners h = [(''window-all-closed'', WindowAllClosedListener), (''activate'', ActivateListener)])"

text \<open>
  \<open>extends h h'\<close>: the logs of \<open>h'\<close> continue those of \<open>h\<close> under the same fault plan.
  \<open>alike h1 h2\<close>: two hosts with the same registrations and flags that fail the same
  calls to come.
\<close>

definition extends :: "host \<Rightarrow> host \<Rightarrow> bool" where
  "extends h h' \<longleftrightarrow>
     calls h' = calls h @ issued h h' \<and> observed h' = observed h @ noted h h'
   \<and> faults h' = faults h"

definition alike :: "host \<Rightarrow> host \<Rightarrow> bool" where
  "alike h1 h2 \<longleftrightarrow>
     listeners h1 = listeners h2 \<and> ready_callbacks h1 = ready_callbacks h2
   \<and> is_ready h1 = is_ready h2 \<and> exited h1 = exited h2
   \<and> (\<forall>i. (length (calls h1) + i \<in> set (faults h1)) = (length (calls h2) + i \<in> set (faults h2)))"

subsection \<open>Sample environments and states\<close>

definition sample_join :: "string \<Rightarrow> string \<Rightarrow> string" where
  "sample_join a b = a @ ''/'' @ b"

definition linux_env :: env where
  "linux_env = \<lparr>platform = ''linux'', dirname = ''/app/dist'', path_join = sample_join\<rparr>"

definition darwin_env :: env where
  "darwin_env = \<lparr>platform = ''darwin'', dirname = ''/app/dist'', path_join = sample_join\<rparr>"

definition other_env :: env where
  "other_env = \<lparr>platform = ''linux'', dirname = ''/opt/shell'', path_join = sample_join\<rparr>"

definition opened :: "env \<Rightarrow> host" where
  "opened e = snd (run e [Ready] (boot []))"

definition closed_on_darwin :: host where
  "closed_on_darwin = snd (run darwin_env [Ready, WindowAllClosed] (boot []))"

definition reopened_on_darwin :: host where
  "reopened_on_darwin = snd (run darwin_env [Ready, WindowAllClosed, Activate] (boot []))"

definition closed_once :: host where
  "closed_once = snd (run darwin_env [Ready, WindowAllClosed] (boot [5]))"

definition closed_twice :: host where
  "closed_twice =
     snd (run darwin_env [Ready, WindowAllClosed, Activate, WindowAllClosed] (boot [7]))"

definition load_failed :: host where
  "load_failed = snd (call_callback linux_env ReadyContinuation (boot [1]))"

definition create_failed :: host where
  "create_failed = snd (call_callback linux_env ReadyContinuation (boot [0]))"

definition closed_then_failing :: host where
  "closed_then_failing = snd (run darwin_env [Ready, WindowAllClosed] (boot [2]))"

section \<open>Basic facts\<close>

lemma boot_fields:
  "windows (boot fs) = []" "next_id (boot fs) = 0" "calls (boot fs) = []"
  "faults (boot fs) = fs" "observed (boot fs) = []"
  "listeners (boot fs) = [(''window-all-closed'', WindowAllClosedListener)]"
  "ready_callbacks (boot fs) = [ReadyContinuation]"
  "is_ready (boot fs) = False" "exited (boot fs) = False"
  by (simp_all add: boot_def main_def initial_host_def app_on_def whenReady_then_def)

lemmas eval_defs = boot_def main_def initial_host_def app_on_def whenReady_then_def
  emit_def listeners_for_def getAllWindows_def app_quit_def createWindow_def
  new_BrowserWindow_def loadFile_def host_fails_def window_options_def Let_def
  linux_env_def darwin_env_def other_env_def sample_join_def issued_def noted_def
  commands_def observations_def opened_def closed_on_darwin_def reopened_on_darwin_def
  closed_once_def closed_twice_def load_failed_def create_failed_def
  closed_then_failing_def

subsection \<open>The three outcomes of \<open>createWindow\<close>\<close>

lemma createWindow_frame:
  "listeners (snd (createWindow e h)) = listeners h"
  "ready_callbacks (snd (createWindow e h)) = ready_callbacks h"
  "is_ready (snd (createWindow e h)) = is_ready h"
  "exited (snd (createWindow e h)) = exited h"
  "faults (snd (createWindow e h)) = faults h"
  "observed (snd (createWindow e h)) = observed h"
  by (simp_all add: createWindow_def new_BrowserWindow_def loadFile_def Let_def)

lemma createWindow_create_raises:
  assumes "length (calls h) \<in> set (faults h)"
  shows "createWindow e h =
           (Inl (HostFailure (NewBrowserWindow (window_options e))),
            h\<lparr>calls := calls h @ [NewBrowserWindow (window_options e)]\<rparr>)"
  using assms by (simp add: createWindow_def new_BrowserWindow_def host_fails_def Let_def)

lemma createWindow_load_rejects:
  assumes "length (calls h) \<notin> set (faults h)" and "Suc (length (calls h)) \<in> set (faults h)"
  shows "createWindow e h =
           (Inr (),
            h\<lparr>calls := calls h @ [NewBrowserWindow (window_options e),
                                   LoadFile (next_id h) ''dist/index.html''],
              windows := windows h @ [\<lparr>win_id = next_id h, win_options = window_options e, loaded = None\<rparr>],
              next_id := Suc (next_id h)\<rparr>)"
  using assms by (simp add: createWindow_def new_BrowserWindow_def loadFile_def host_fails_def Let_def)

lemma createWindow_returns:
  assumes "length (calls h) \<notin> set (faults h)" and "Suc (length (calls h)) \<notin> set (faults h)"
  shows "createWindow e h =
           (Inr (),
            h\<lparr>calls := calls h @ [NewBrowserWindow (window_options e),
                                   LoadFile (next_id h) ''dist/index.html''],
              windows := map (\<lambda>w. if win_id w = next_id h then w\<lparr>loaded := Some ''dist/index.html''\<rparr> else w)
                          (windows h @ [\<lparr>win_id = next_id h, win_options = window_options e, loaded = None\<rparr>]),
              next_id := Suc (next_id h)\<rparr>)"
  using assms by (simp add: createWindow_def new_BrowserWindow_def loadFile_def host_fails_def Let_def)

lemma createWindow_cases:
  obtains (create_raises) "length (calls h) \<in> set (faults h)"
        | (load_rejects) "length (calls h) \<notin> set (faults h)" "Suc (length (calls h)) \<in> set (faults h)"
        | (returns) "length (calls h) \<notin> set (faults h)" "Suc (length (calls h)) \<notin> set (faults h)"
  by blast

lemmas deliver_unfold =
  emit_def listeners_for_def getAllWindows_def app_quit_def app_on_def
  createWindow_create_raises createWindow_load_rejects createWindow_returns

subsection \<open>The invariants hold along every run\<close>

lemma shell_inv_boot: "shell_inv (boot fs)"
  by (simp add: shell_inv_def boot_fields)

lemma shell_ok_boot: "shell_ok (boot fs)"
  by (simp add: shell_ok_def shell_inv_boot boot_fields)

lemma shell_inv_listeners:
  assumes "shell_inv h"
  obtains (unregistered) "listeners h = [(''window-all-closed'', WindowAllClosedListener)]"
        | (registered) "listeners h = [(''window-all-closed'', WindowAllClosedListener), (''activate'', ActivateListener)]"
                       "is_ready h"
  using assms by (auto simp: shell_inv_def split: if_splits)

lemma shell_inv_deliver: "shell_inv h \<Longrightarrow> shell_inv (snd (deliver e ev h))"
proof (cases ev)
  case Ready
  assume inv: "shell_inv h"
  show ?thesis
  proof (cases "is_ready h")
    case True
    with inv Ready show ?thesis by simp
  next
    case False
    let ?h0 = "h\<lparr>is_ready := True, ready_callbacks := []\<rparr>"
    from inv False have rc: "ready_callbacks h = [ReadyContinuation]" and w: "windows h = []"
      and l: "listeners h = [(''window-all-closed'', WindowAllClosedListener)]"
      and q: "exited h = (AppQuit \<in> set (calls h))"
      by (simp_all add: shell_inv_def)
    show ?thesis
      by (cases rule: createWindow_cases [of ?h0])
         (simp_all add: Ready False rc w l q shell_inv_def createWindow_create_raises
            createWindow_load_rejects createWindow_returns app_on_def)
  qed
next
  case Activate
  assume inv: "shell_inv h"
  let ?h1 = "h\<lparr>observed := observed h @ [length (windows h)]\<rparr>"
  from inv consider
      (none) "listeners h = [(''window-all-closed'', WindowAllClosedListener)]"
    | (one) "listeners h = [(''window-all-closed'', WindowAllClosedListener), (''activate'', ActivateListener)]"
    by (auto simp: shell_inv_def)
  then show ?thesis
  proof cases
    case none
    with inv Activate show ?thesis by (simp add: emit_def listeners_for_def)
  next
    case one
    from inv one have r: "is_ready h" by (auto simp: shell_inv_def split: if_splits)
    show ?thesis
    proof (cases "windows h = []")
      case True
      show ?thesis
        using inv r
        by (cases rule: createWindow_cases [of ?h1])
           (simp_all add: Activate one True emit_def listeners_for_def getAllWindows_def
              shell_inv_def createWindow_create_raises createWindow_load_rejects createWindow_returns)
    next
      case False
      with inv r show ?thesis
        by (simp add: Activate one emit_def listeners_for_def getAllWindows_def shell_inv_def)
    qed
  qed
next
  case WindowAllClosed
  assume inv: "shell_inv h"
  from inv consider
      (none) "listeners h = [(''window-all-closed'', WindowAllClosedListener)]"
    | (one) "listeners h = [(''window-all-closed'', WindowAllClosedListener), (''activate'', ActivateListener)]"
    by (auto simp: shell_inv_def)
  then show ?thesis
    using inv
    by cases (auto simp: WindowAllClosed emit_def listeners_for_def shell_inv_def app_quit_def
        split: if_splits)
qed

lemma shell_inv_run: "shell_inv h \<Longrightarrow> shell_inv (snd (run e evs h))"
proof (induction evs arbitrary: h)
  case Nil
  then show ?case by simp
next
  case (Cons ev evs)
  from Cons.prems have d: "shell_inv (snd (deliver e ev h))" by (rule shell_inv_deliver)
  show ?case
  proof (cases "deliver e ev h")
    case (Pair r h1)
    with d have h1: "shell_inv h1" by simp
    show ?thesis
    proof (cases r)
      case (Inl err)
      with Pair h1 Cons.prems show ?thesis by simp
    next
      case (Inr u)
      with Pair Cons.IH [OF h1] Cons.prems show ?thesis by simp
    qed
  qed
qed

lemma shell_ok_deliver:
  assumes "shell_ok h" and "deliver e ev h = (Inr (), h')"
  shows "shell_ok h'"
proof -
  from assms(1) have inv: "shell_inv h" by (simp add: shell_ok_def)
  from shell_inv_deliver [OF inv, of e ev] assms(2) have inv': "shell_inv h'" by simp
  have "is_ready h' \<longrightarrow> listeners h' = [(''window-all-closed'', WindowAllClosedListener), (''activate'', ActivateListener)]"
  proof (cases ev)
    case Ready
    show ?thesis
    proof (cases "is_ready h")
      case True
      with assms Ready show ?thesis by (simp add: shell_ok_def)
    next
      case False
      let ?h0 = "h\<lparr>is_ready := True, ready_callbacks := []\<rparr>"
      from inv False have rc: "ready_callbacks h = [ReadyContinuation]"
        and l: "listeners h = [(''window-all-closed'', WindowAllClosedListener)]"
        by (simp_all add: shell_inv_def)
      show ?thesis
        using assms(2)
        by (cases rule: createWindow_cases [of ?h0])
           (auto simp add: Ready False rc l createWindow_create_raises
              createWindow_load_rejects createWindow_returns app_on_def)
    qed
  next
    case Activate
    from inv consider
        (none) "listeners h = [(''window-all-closed'', WindowAllClosedListener)]"
      | (one) "listeners h = [(''window-all-closed'', WindowAllClosedListener), (''activate'', ActivateListener)]"
      by (auto simp: shell_inv_def)
    then show ?thesis
    proof cases
      case none
      with assms Activate show ?thesis by (auto simp add: emit_def listeners_for_def shell_ok_def)
    next
      case one
      let ?h1 = "h\<lparr>observed := observed h @ [length (windows h)]\<rparr>"
      have "listeners h' = listeners h"
        using assms(2) createWindow_frame(1) [of e ?h1]
        by (auto simp add: Activate one emit_def listeners_for_def getAllWindows_def
            split: if_splits prod.splits sum.splits)
      with one show ?thesis by simp
    qed
  next
    case WindowAllClosed
    from inv consider
        (none) "listeners h = [(''window-all-closed'', WindowAllClosedListener)]"
      | (one) "listeners h = [(''window-all-closed'', WindowAllClosedListener), (''activate'', ActivateListener)]"
      by (auto simp: shell_inv_def)
    then show ?thesis
      using assms
      by cases (auto simp: WindowAllClosed emit_def listeners_for_def shell_ok_def app_quit_def
          split: if_splits)
  qed
  with inv' show ?thesis by (simp add: shell_ok_def)
qed

lemma shell_ok_run:
  "shell_ok h \<Longrightarrow> run e evs h = (Inr (), h') \<Longrightarrow> shell_ok h'"
proof (induction evs arbitrary: h)
  case Nil
  then show ?case by simp
next
  case (Cons ev evs)
  show ?case
  proof (cases "exited h")
    case True
    with Cons.prems show ?thesis by simp
  next
    case False
    obtain r h1 where d: "deliver e ev h = (r, h1)" by (cases "deliver e ev h")
    show ?thesis
    proof (cases r)
      case (Inl err)
      with d False Cons.prems show ?thesis by simp
    next
      case (Inr u)
      with d have d': "deliver e ev h = (Inr (), h1)" by simp
      from shell_ok_deliver [OF Cons.prems(1) d'] have "shell_ok h1" .
      moreover from d' False Cons.prems(2) have "run e evs h1 = (Inr (), h')" by simp
      ultimately show ?thesis by (rule Cons.IH)
    qed
  qed
qed

lemma run_invariant:
  assumes "shell_inv h" and "P h"
    and step: "\<And>h ev. ev \<in> set evs \<Longrightarrow> shell_inv h \<Longrightarrow> P h \<Longrightarrow> P (snd (deliver e ev h))"
  shows "P (snd (run e evs h))"
  using assms
proof (induction evs arbitrary: h)
  case Nil
  then show ?case by simp
next
  case (Cons ev evs)
  obtain r h1 where d: "deliver e ev h = (r, h1)" by (cases "deliver e ev h")
  from Cons.prems(1) have inv1: "shell_inv h1"
    using shell_inv_deliver [of h e ev] d by simp
  from Cons.prems have P1: "P h1"
    using d by (metis list.set_intros(1) snd_conv)
  have "P (snd (run e evs h1))"
    by (rule Cons.IH [OF inv1 P1]) (simp add: Cons.prems(3))
  with d Cons.prems(2) P1 show ?case
    by (cases r) simp_all
qed

lemma reachable_inv:
  assumes "run e evs (boot fs) = (r, h)"
  shows "shell_inv h"
  using shell_inv_run [OF shell_inv_boot, of e evs fs] assms by simp

lemma reachable_ok:
  assumes "run e evs (boot fs) = (Inr (), h)"
  shows "shell_ok h"
  using shell_ok_run [OF shell_ok_boot assms] .

lemma run_exited: "exited h \<Longrightarrow> run e evs h = (Inr (), h)"
  by (cases evs) simp_all

subsection \<open>What one event can issue\<close>

lemma deliver_calls:
  assumes "shell_inv h"
  shows "calls (snd (deliver e ev h)) = calls h @ issued h (snd (deliver e ev h))"
  using assms
  by (cases ev; cases rule: shell_inv_listeners [OF assms]; cases rule: createWindow_cases [of h])
     (auto simp: deliver_unfold issued_def shell_inv_def split: if_splits)

lemma deliver_issued:
  assumes "shell_inv h"
  shows "issued h (snd (deliver e ev h)) \<in>
           {[], [AppQuit], [NewBrowserWindow (window_options e)],
            [NewBrowserWindow (window_options e), LoadFile (next_id h) ''dist/index.html'']}"
  using assms
  by (cases ev; cases rule: shell_inv_listeners [OF assms]; cases rule: createWindow_cases [of h])
     (auto simp: deliver_unfold issued_def shell_inv_def split: if_splits)

lemma deliver_quit:
  assumes "shell_inv h" and "AppQuit \<in> set (issued h (snd (deliver e ev h)))"
  shows "platform e \<noteq> ''darwin'' \<and> ev = WindowAllClosed"
  using assms
  by (cases ev; cases rule: shell_inv_listeners [OF assms(1)]; cases rule: createWindow_cases [of h])
     (auto simp: deliver_unfold issued_def shell_inv_def split: if_splits)

lemma deliver_create:
  assumes "shell_inv h" and "NewBrowserWindow opts \<in> set (issued h (snd (deliver e ev h)))"
  shows "windows h = [] \<and> opts = window_options e \<and> (ev = Ready \<and> \<not> is_ready h \<or> ev = Activate \<and> is_ready h)"
  using assms
  by (cases ev; cases rule: shell_inv_listeners [OF assms(1)]; cases rule: createWindow_cases [of h])
     (auto simp: deliver_unfold issued_def shell_inv_def split: if_splits)

lemma deliver_windows:
  assumes "shell_inv h" and "w \<in> set (windows (snd (deliver e ev h)))"
  shows "w \<in> set (windows h) \<or> win_options w = window_options e"
  using assms
  by (cases ev; cases rule: shell_inv_listeners [OF assms(1)]; cases rule: createWindow_cases [of h])
     (auto simp: deliver_unfold shell_inv_def split: if_splits)

lemma deliver_not_ready:
  assumes "shell_inv h" and "\<not> is_ready h" and "ev \<noteq> Ready"
  shows "\<not> is_ready (snd (deliver e ev h))"
  using assms
  by (cases ev; cases rule: shell_inv_listeners [OF assms(1)])
     (auto simp: deliver_unfold shell_inv_def split: if_splits)

lemma darwin_deliver:
  assumes "platform e = ''darwin''" and "shell_inv h" and "AppQuit \<notin> set (calls h)"
  shows "AppQuit \<notin> set (calls (snd (deliver e ev h)))"
proof
  assume "AppQuit \<in> set (calls (snd (deliver e ev h)))"
  with deliver_calls [OF assms(2), of e ev] assms(3)
  have "AppQuit \<in> set (issued h (snd (deliver e ev h)))"
    by (metis Un_iff set_append)
  from deliver_quit [OF assms(2) this] assms(1) show False by simp
qed

subsection \<open>Logs only grow\<close>

lemma extends_refl: "extends h h"
  by (simp add: extends_def issued_def noted_def)

lemma extends_trans:
  assumes "extends h h'" and "extends h' h''"
  shows "extends h h''"
    and "issued h h'' = issued h h' @ issued h' h''"
    and "noted h h'' = noted h h' @ noted h' h''"
proof -
  from assms have c: "calls h'' = calls h @ issued h h' @ issued h' h''"
    and c': "calls h' = calls h @ issued h h'"
    and ob: "observed h'' = observed h @ noted h h' @ noted h' h''"
    and ob': "observed h' = observed h @ noted h h'"
    and f: "faults h'' = faults h"
    by (simp_all add: extends_def)
  show i: "issued h h'' = issued h h' @ issued h' h''"
    using c by (simp add: issued_def [of h h''])
  show n: "noted h h'' = noted h h' @ noted h' h''"
    using ob by (simp add: noted_def [of h h''])
  show "extends h h''"
    using c ob f i n by (simp add: extends_def)
qed

lemma extends_fields:
  assumes "calls h0 = calls h" and "observed h0 = observed h" and "faults h0 = faults h"
    and "extends h0 h'"
  shows "extends h h'" and "issued h h' = issued h0 h'" and "noted h h' = noted h0 h'"
  using assms by (simp_all add: extends_def issued_def noted_def)

lemma extends_callback: "extends h (snd (call_callback e cb h))"
  by (cases cb; cases rule: createWindow_cases [of h])
     (auto simp: extends_def issued_def noted_def deliver_unfold)

lemma extends_call_all: "extends h (snd (call_all e cbs h))"
proof (induction cbs arbitrary: h)
  case Nil
  show ?case by (simp add: extends_refl)
next
  case (Cons cb cbs)
  obtain r h1 where c: "call_callback e cb h = (r, h1)" by (cases "call_callback e cb h")
  with extends_callback [of h e cb] have 1: "extends h h1" by simp
  show ?case
  proof (cases r)
    case (Inl err)
    with c 1 show ?thesis by simp
  next
    case (Inr u)
    with c extends_trans(1) [OF 1 Cons.IH [of h1]] show ?thesis by simp
  qed
qed

lemma extends_deliver: "extends h (snd (deliver e ev h))"
proof (cases ev)
  case Ready
  show ?thesis
  proof (cases "is_ready h")
    case True
    with Ready show ?thesis by (simp add: extends_refl)
  next
    case False
    have "extends h (snd (call_all e (ready_callbacks h) (h\<lparr>is_ready := True, ready_callbacks := []\<rparr>)))"
      by (rule extends_fields(1) [OF _ _ _ extends_call_all]) simp_all
    with Ready False show ?thesis by simp
  qed
next
  case Activate
  then show ?thesis by (simp add: emit_def extends_call_all)
next
  case WindowAllClosed
  have "extends h (snd (call_all e (listeners_for ''window-all-closed'' (h\<lparr>windows := []\<rparr>)) (h\<lparr>windows := []\<rparr>)))"
    by (rule extends_fields(1) [OF _ _ _ extends_call_all]) simp_all
  with WindowAllClosed show ?thesis by (simp add: emit_def)
qed

lemma extends_run: "extends h (snd (run e evs h))"
proof (induction evs arbitrary: h)
  case Nil
  show ?case by (simp add: extends_refl)
next
  case (Cons ev evs)
  obtain r h1 where d: "deliver e ev h = (r, h1)" by (cases "deliver e ev h")
  with extends_deliver [of h e ev] have 1: "extends h h1" by simp
  show ?case
  proof (cases "exited h")
    case True
    then show ?thesis by (simp add: extends_refl)
  next
    case False
    show ?thesis
    proof (cases r)
      case (Inl err)
      with d 1 False show ?thesis by simp
    next
      case (Inr u)
      with d False extends_trans(1) [OF 1 Cons.IH [of h1]] show ?thesis by simp
    qed
  qed
qed

subsection \<open>Hosts that are alike stay alike\<close>

text \<open>
  Two hosts that are alike and show the shell the same window counts receive the same
  commands, callback by callback, event by event.  The tails \<open>t1\<close> and \<open>t2\<close> stand for
  the counts read later in the run: a step reads a number of counts that does not depend
  on the host, so equal lists of counts split into equal parts.
\<close>

lemma noted_callback_length:
  "length (noted h (snd (call_callback e cb h))) = (if cb = ActivateListener then 1 else 0)"
  by (cases cb; cases rule: createWindow_cases [of h])
     (auto simp: noted_def deliver_unfold)

lemma alike_faults:
  assumes "alike h1 h2"
  shows "(length (calls h1) \<in> set (faults h1)) = (length (calls h2) \<in> set (faults h2))"
    and "(Suc (length (calls h1)) \<in> set (faults h1)) = (Suc (length (calls h2)) \<in> set (faults h2))"
proof -
  from assms have a: "\<forall>i. (length (calls h1) + i \<in> set (faults h1)) = (length (calls h2) + i \<in> set (faults h2))"
    by (simp add: alike_def)
  from a [rule_format, of 0] show "(length (calls h1) \<in> set (faults h1)) = (length (calls h2) \<in> set (faults h2))"
    by simp
  from a [rule_format, of 1] show "(Suc (length (calls h1)) \<in> set (faults h1)) = (Suc (length (calls h2)) \<in> set (faults h2))"
    by simp
qed

lemma alike_shift:
  assumes "alike h1 h2"
    and "calls h1' = calls h1 @ cs1" and "calls h2' = calls h2 @ cs2" and "length cs1 = length cs2"
    and "faults h1' = faults h1" and "faults h2' = faults h2"
    and "listeners h1' = listeners h2'" and "ready_callbacks h1' = ready_callbacks h2'"
    and "is_ready h1' = is_ready h2'" and "exited h1' = exited h2'"
  shows "alike h1' h2'"
proof -
  from assms(1) have a: "\<And>i. (length (calls h1) + i \<in> set (faults h1)) = (length (calls h2) + i \<in> set (faults h2))"
    by (simp add: alike_def)
  have "(length (calls h1') + i \<in> set (faults h1')) = (length (calls h2') + i \<in> set (faults h2'))" for i
    using a [of "length cs2 + i"] assms(2-6) by (simp add: add.assoc)
  with assms(7-10) show ?thesis by (simp add: alike_def)
qed

lemma alike_fields:
  assumes "alike h1 h2"
    and "calls k1 = calls h1" and "faults k1 = faults h1"
    and "calls k2 = calls h2" and "faults k2 = faults h2"
    and "listeners k1 = listeners k2" and "ready_callbacks k1 = ready_callbacks k2"
    and "is_ready k1 = is_ready k2" and "exited k1 = exited k2"
  shows "alike k1 k2"
  using assms by (simp add: alike_def)

lemma callback_agree:
  assumes "alike h1 h2"
    and "noted h1 (snd (call_callback e cb h1)) = noted h2 (snd (call_callback e cb h2))"
  shows "alike (snd (call_callback e cb h1)) (snd (call_callback e cb h2))
       \<and> map command_of (issued h1 (snd (call_callback e cb h1)))
           = map command_of (issued h2 (snd (call_callback e cb h2)))
       \<and> isl (fst (call_callback e cb h1)) = isl (fst (call_callback e cb h2))"
proof -
  from assms(1) have f: "listeners h1 = listeners h2" "ready_callbacks h1 = ready_callbacks h2"
    "is_ready h1 = is_ready h2" "exited h1 = exited h2"
    by (simp_all add: alike_def)
  note a = alike_faults [OF assms(1)]
  show ?thesis
  proof (cases cb)
    case ReadyContinuation
    show ?thesis
      using a f
      by (cases rule: createWindow_cases [of h1]; cases rule: createWindow_cases [of h2])
         (auto simp: ReadyContinuation deliver_unfold issued_def
            intro!: alike_shift [OF assms(1)])
  next
    case ActivateListener
    from assms(2) have w: "(windows h1 = []) = (windows h2 = [])"
      by (cases rule: createWindow_cases [of h1]; cases rule: createWindow_cases [of h2])
         (auto simp: ActivateListener noted_def deliver_unfold split: if_splits)
    show ?thesis
      using a f w
      by (cases rule: createWindow_cases [of h1]; cases rule: createWindow_cases [of h2])
         (auto simp: ActivateListener deliver_unfold issued_def
            intro!: alike_shift [OF assms(1)])
  next
    case WindowAllClosedListener
    show ?thesis
      using f
      by (auto simp: WindowAllClosedListener deliver_unfold issued_def
            intro!: alike_shift [OF assms(1)])
  qed
qed

lemma call_all_agree:
  assumes "alike h1 h2"
    and "noted h1 (snd (call_all e cbs h1)) @ t1 = noted h2 (snd (call_all e cbs h2)) @ t2"
  shows "alike (snd (call_all e cbs h1)) (snd (call_all e cbs h2))
       \<and> map command_of (issued h1 (snd (call_all e cbs h1)))
           = map command_of (issued h2 (snd (call_all e cbs h2)))
       \<and> isl (fst (call_all e cbs h1)) = isl (fst (call_all e cbs h2))
       \<and> t1 = t2"
  using assms
proof (induction cbs arbitrary: h1 h2)
  case Nil
  then show ?case by (simp add: issued_def noted_def)
next
  case (Cons cb cbs)
  obtain r1 a1 where c1: "call_callback e cb h1 = (r1, a1)" by (cases "call_callback e cb h1")
  obtain r2 a2 where c2: "call_callback e cb h2 = (r2, a2)" by (cases "call_callback e cb h2")
  from extends_callback [of h1 e cb] c1 have x1: "extends h1 a1" by simp
  from extends_callback [of h2 e cb] c2 have x2: "extends h2 a2" by simp
  let ?f1 = "snd (call_all e (cb # cbs) h1)" and ?f2 = "snd (call_all e (cb # cbs) h2)"
  let ?g1 = "if isl r1 then a1 else snd (call_all e cbs a1)"
  let ?g2 = "if isl r2 then a2 else snd (call_all e cbs a2)"
  have f1: "?f1 = ?g1" using c1 by (cases r1) simp_all
  have f2: "?f2 = ?g2" using c2 by (cases r2) simp_all
  have y1: "extends a1 ?g1" by (simp add: extends_refl extends_call_all)
  have y2: "extends a2 ?g2" by (simp add: extends_refl extends_call_all)
  from noted_callback_length [of h1 e cb] noted_callback_length [of h2 e cb] c1 c2
  have len: "length (noted h1 a1) = length (noted h2 a2)" by simp
  from Cons.prems(2) have "noted h1 a1 @ noted a1 ?g1 @ t1 = noted h2 a2 @ noted a2 ?g2 @ t2"
    unfolding f1 f2 by (simp only: extends_trans(3) [OF x1 y1] extends_trans(3) [OF x2 y2] append_assoc)
  with len have n: "noted h1 a1 = noted h2 a2" and rest: "noted a1 ?g1 @ t1 = noted a2 ?g2 @ t2"
    by simp_all
  from callback_agree [OF Cons.prems(1), of e cb] n c1 c2
  have al: "alike a1 a2" and cm: "map command_of (issued h1 a1) = map command_of (issued h2 a2)"
    and rr: "isl r1 = isl r2"
    by simp_all
  show ?case
  proof (cases "isl r1")
    case True
    with rr have t2: "isl r2" by simp
    from rest True t2 have "t1 = t2" by (simp add: noted_def)
    with al cm True t2 c1 c2 show ?thesis
      by (cases r1; cases r2) simp_all
  next
    case False
    with rr have n2: "\<not> isl r2" by simp
    from rest False n2
    have "noted a1 (snd (call_all e cbs a1)) @ t1 = noted a2 (snd (call_all e cbs a2)) @ t2"
      by simp
    from Cons.IH [OF al this]
    have ih: "alike (snd (call_all e cbs a1)) (snd (call_all e cbs a2))"
      "map command_of (issued a1 (snd (call_all e cbs a1)))
         = map command_of (issued a2 (snd (call_all e cbs a2)))"
      "isl (fst (call_all e cbs a1)) = isl (fst (call_all e cbs a2))" "t1 = t2"
      by simp_all
    have i1: "issued h1 (snd (call_all e cbs a1)) = issued h1 a1 @ issued a1 (snd (call_all e cbs a1))"
      by (rule extends_trans(2) [OF x1 extends_call_all])
    have i2: "issued h2 (snd (call_all e cbs a2)) = issued h2 a2 @ issued a2 (snd (call_all e cbs a2))"
      by (rule extends_trans(2) [OF x2 extends_call_all])
    from False n2 c1 c2 ih cm i1 i2 show ?thesis
      by (cases r1; cases r2) simp_all
  qed
qed

lemma deliver_agree:
  assumes "alike h1 h2"
    and "noted h1 (snd (deliver e ev h1)) @ t1 = noted h2 (snd (deliver e ev h2)) @ t2"
  shows "alike (snd (deliver e ev h1)) (snd (deliver e ev h2))
       \<and> map command_of (issued h1 (snd (deliver e ev h1)))
           = map command_of (issued h2 (snd (deliver e ev h2)))
       \<and> isl (fst (deliver e ev h1)) = isl (fst (deliver e ev h2))
       \<and> t1 = t2"
proof -
  from assms(1) have f: "listeners h1 = listeners h2" "ready_callbacks h1 = ready_callbacks h2"
    "is_ready h1 = is_ready h2" "exited h1 = exited h2"
    by (simp_all add: alike_def)
  have step: ?thesis
    if d1: "deliver e ev h1 = call_all e cbs k1" and d2: "deliver e ev h2 = call_all e cbs k2"
      and k1: "calls k1 = calls h1" "observed k1 = observed h1" "faults k1 = faults h1"
      and k2: "calls k2 = calls h2" "observed k2 = observed h2" "faults k2 = faults h2"
      and kk: "listeners k1 = listeners k2" "ready_callbacks k1 = ready_callbacks k2"
        "is_ready k1 = is_ready k2" "exited k1 = exited k2"
    for cbs k1 k2
  proof -
    have al: "alike k1 k2"
      by (rule alike_fields [OF assms(1) k1(1) k1(3) k2(1) k2(3) kk])
    have n1: "noted h1 (snd (call_all e cbs k1)) = noted k1 (snd (call_all e cbs k1))"
      by (rule extends_fields(3) [OF k1 extends_call_all])
    have n2: "noted h2 (snd (call_all e cbs k2)) = noted k2 (snd (call_all e cbs k2))"
      by (rule extends_fields(3) [OF k2 extends_call_all])
    have i1: "issued h1 (snd (call_all e cbs k1)) = issued k1 (snd (call_all e cbs k1))"
      by (rule extends_fields(2) [OF k1 extends_call_all])
    have i2: "issued h2 (snd (call_all e cbs k2)) = issued k2 (snd (call_all e cbs k2))"
      by (rule extends_fields(2) [OF k2 extends_call_all])
    from assms(2) have "noted k1 (snd (call_all e cbs k1)) @ t1 = noted k2 (snd (call_all e cbs k2)) @ t2"
      by (simp only: d1 d2 n1 n2)
    from call_all_agree [OF al this] show ?thesis
      by (simp only: d1 d2 i1 i2)
  qed
  show ?thesis
  proof (cases ev)
    case Ready
    show ?thesis
    proof (cases "is_ready h1")
      case True
      with f have "is_ready h2" by simp
      with True Ready assms show ?thesis by (simp add: issued_def noted_def)
    next
      case False
      with f have "\<not> is_ready h2" by simp
      with False Ready f show ?thesis
        by (intro step [of "ready_callbacks h1" "h1\<lparr>is_ready := True, ready_callbacks := []\<rparr>"
              "h2\<lparr>is_ready := True, ready_callbacks := []\<rparr>"]) simp_all
    qed
  next
    case Activate
    with f show ?thesis
      by (intro step [of "listeners_for ''activate'' h1" h1 h2])
         (simp_all add: emit_def listeners_for_def)
  next
    case WindowAllClosed
    with f show ?thesis
      by (intro step [of "listeners_for ''window-all-closed'' h1" "h1\<lparr>windows := []\<rparr>"
            "h2\<lparr>windows := []\<rparr>"])
         (simp_all add: emit_def listeners_for_def)
  qed
qed

lemma run_agree:
  assumes "alike h1 h2"
    and "noted h1 (snd (run e evs h1)) @ t1 = noted h2 (snd (run e evs h2)) @ t2"
  shows "alike (snd (run e evs h1)) (snd (run e evs h2))
       \<and> map command_of (issued h1 (snd (run e evs h1)))
           = map command_of (issued h2 (snd (run e evs h2)))
       \<and> isl (fst (run e evs h1)) = isl (fst (run e evs h2))
       \<and> t1 = t2"
  using assms
proof (induction evs arbitrary: h1 h2)
  case Nil
  then show ?case by (simp add: issued_def noted_def)
next
  case (Cons ev evs)
  from Cons.prems(1) have x: "exited h1 = exited h2" by (simp add: alike_def)
  show ?case
  proof (cases "exited h1")
    case True
    with x have "exited h2" by simp
    with True Cons.prems show ?thesis by (simp add: issued_def noted_def)
  next
    case live1: False
    with x have live2: "\<not> exited h2" by simp
    obtain r1 a1 where c1: "deliver e ev h1 = (r1, a1)" by (cases "deliver e ev h1")
    obtain r2 a2 where c2: "deliver e ev h2 = (r2, a2)" by (cases "deliver e ev h2")
    from extends_deliver [of h1 e ev] c1 have x1: "extends h1 a1" by simp
    from extends_deliver [of h2 e ev] c2 have x2: "extends h2 a2" by simp
    let ?f1 = "snd (run e (ev # evs) h1)" and ?f2 = "snd (run e (ev # evs) h2)"
    let ?g1 = "if isl r1 then a1 else snd (run e evs a1)"
    let ?g2 = "if isl r2 then a2 else snd (run e evs a2)"
    have f1: "?f1 = ?g1" using c1 live1 by (cases r1) simp_all
    have f2: "?f2 = ?g2" using c2 live2 by (cases r2) simp_all
    have y1: "extends a1 ?g1" by (simp add: extends_refl extends_run)
    have y2: "extends a2 ?g2" by (simp add: extends_refl extends_run)
    from Cons.prems(2) have "noted h1 a1 @ noted a1 ?g1 @ t1 = noted h2 a2 @ noted a2 ?g2 @ t2"
      unfolding f1 f2
      by (simp only: extends_trans(3) [OF x1 y1] extends_trans(3) [OF x2 y2] append_assoc)
    then have "noted h1 (snd (deliver e ev h1)) @ noted a1 ?g1 @ t1
                 = noted h2 (snd (deliver e ev h2)) @ noted a2 ?g2 @ t2"
      by (simp only: c1 c2 snd_conv)
    note da = deliver_agree [OF Cons.prems(1) this, unfolded c1 c2 snd_conv fst_conv]
    from da have al: "alike a1 a2" and cm: "map command_of (issued h1 a1) = map command_of (issued h2 a2)"
      and rr: "isl r1 = isl r2" and rest: "noted a1 ?g1 @ t1 = noted a2 ?g2 @ t2"
      by blast+
    show ?thesis
    proof (cases "isl r1")
      case True
      with rr have t2: "isl r2" by simp
      from rest True t2 have "t1 = t2" by (simp add: noted_def)
      with al cm True t2 c1 c2 live1 live2 show ?thesis
        by (cases r1; cases r2) simp_all
    next
      case False
      with rr have n2: "\<not> isl r2" by simp
      from rest False n2
      have "noted a1 (snd (run e evs a1)) @ t1 = noted a2 (snd (run e evs a2)) @ t2"
        by simp
      from Cons.IH [OF al this]
      have ih: "alike (snd (run e evs a1)) (snd (run e evs a2))"
        "map command_of (issued a1 (snd (run e evs a1)))
           = map command_of (issued a2 (snd (run e evs a2)))"
        "isl (fst (run e evs a1)) = isl (fst (run e evs a2))" "t1 = t2"
        by simp_all
      have i1: "issued h1 (snd (run e evs a1)) = issued h1 a1 @ issued a1 (snd (run e evs a1))"
        by (rule extends_trans(2) [OF x1 extends_run])
      have i2: "issued h2 (snd (run e evs a2)) = issued h2 a2 @ issued a2 (snd (run e evs a2))"
        by (rule extends_trans(2) [OF x2 extends_run])
      from False n2 c1 c2 ih cm i1 i2 live1 live2 show ?thesis
        by (cases r1; cases r2) simp_all
    qed
  qed
qed

section \<open>Readiness\<close>

text \<open>
  C1.  When the ready event fires on the freshly loaded module, and the host fails
  neither the window creation nor the content load, the continuation returns normally,
  the command log is exactly one window creation followed by one content load in that
  window, and exactly one window is open: 800 by 600, with \<^verbatim>\<open>dist/index.html\<close> loaded.
\<close>

theorem ready_creates_one_window:
  assumes "0 \<notin> set fs" and "1 \<notin> set fs"
  shows "fst (deliver e Ready (boot fs)) = Inr ()
       \<and> calls (snd (deliver e Ready (boot fs)))
           = [NewBrowserWindow (window_options e), LoadFile 0 ''dist/index.html'']
       \<and> windows (snd (deliver e Ready (boot fs)))
           = [\<lparr>win_id = 0, win_options = window_options e, loaded = Some ''dist/index.html''\<rparr>]
       \<and> width (window_options e) = 800 \<and> height (window_options e) = 600"
  using assms
  by (simp add: boot_fields createWindow_def new_BrowserWindow_def loadFile_def host_fails_def
      app_on_def window_options_def Let_def)

theorem ready_creates_one_window_witness:
  "0 \<notin> set ([] :: nat list) \<and> 1 \<notin> set ([] :: nat list)
   \<and> fst (deliver linux_env Ready (boot [])) = Inr ()
   \<and> calls (snd (deliver linux_env Ready (boot [])))
       = [NewBrowserWindow \<lparr>width = 800, height = 600,
            webPreferences = \<lparr>preload = ''/app/dist/preload.js''\<rparr>\<rparr>,
          LoadFile 0 ''dist/index.html'']
   \<and> windows (snd (deliver linux_env Ready (boot [])))
       = [\<lparr>win_id = 0,
           win_options = \<lparr>width = 800, height = 600,
             webPreferences = \<lparr>preload = ''/app/dist/preload.js''\<rparr>\<rparr>,
           loaded = Some ''dist/index.html''\<rparr>]"
proof -
  have a: "0 \<notin> set ([] :: nat list)" and b: "1 \<notin> set ([] :: nat list)"
    by simp_all
  from ready_creates_one_window [OF a b, of linux_env] show ?thesis
    by (simp add: window_options_def linux_env_def sample_join_def)
qed

section \<open>Activation\<close>

text \<open>
  C2.  Take any state reached by a run from the loaded module in which no exception
  escaped and the ready continuation has run.  If no window is open there and the host
  fails neither of the next two calls, an activation event returns normally and makes
  the shell issue exactly one window creation and one content load; afterwards exactly
  one window is open, and its options and its document are those of the window that the
  ready event creates.  The state is arbitrary, so this holds for every activation of
  every sequence that arrives while the window count is zero.
\<close>

theorem activate_creates_one_window:
  assumes "run e evs (boot fs) = (Inr (), h)" and "is_ready h"
    and "length (windows h) = 0"
    and "length (calls h) \<notin> set (faults h)" and "Suc (length (calls h)) \<notin> set (faults h)"
  shows "fst (deliver e Activate h) = Inr ()
       \<and> calls (snd (deliver e Activate h))
           = calls h @ [NewBrowserWindow (window_options e), LoadFile (next_id h) ''dist/index.html'']
       \<and> windows (snd (deliver e Activate h))
           = [\<lparr>win_id = next_id h, win_options = window_options e, loaded = Some ''dist/index.html''\<rparr>]
       \<and> map win_options (windows (snd (deliver e Activate h)))
           = map win_options (windows (snd (deliver e Ready (boot []))))
       \<and> map loaded (windows (snd (deliver e Activate h)))
           = map loaded (windows (snd (deliver e Ready (boot []))))"
proof -
  from reachable_ok [OF assms(1)] assms(2)
  have l: "listeners h = [(''window-all-closed'', WindowAllClosedListener), (''activate'', ActivateListener)]"
    by (simp add: shell_ok_def)
  from assms(3-5) show ?thesis
    by (simp add: l deliver_unfold boot_fields)
qed

theorem activate_creates_one_window_witness:
  "run darwin_env [Ready, WindowAllClosed] (boot []) = (Inr (), closed_on_darwin)
   \<and> is_ready closed_on_darwin \<and> length (windows closed_on_darwin) = 0
   \<and> length (calls closed_on_darwin) \<notin> set (faults closed_on_darwin)
   \<and> Suc (length (calls closed_on_darwin)) \<notin> set (faults closed_on_darwin)
   \<and> fst (deliver darwin_env Activate closed_on_darwin) = Inr ()
   \<and> calls (snd (deliver darwin_env Activate closed_on_darwin))
       = [NewBrowserWindow (window_options darwin_env), LoadFile 0 ''dist/index.html'',
          NewBrowserWindow (window_options darwin_env), LoadFile 1 ''dist/index.html'']
   \<and> windows (snd (deliver darwin_env Activate closed_on_darwin))
       = [\<lparr>win_id = 1, win_options = window_options darwin_env,
           loaded = Some ''dist/index.html''\<rparr>]
   \<and> map win_options (windows (snd (deliver darwin_env Activate closed_on_darwin)))
       = map win_options (windows (snd (deliver darwin_env Ready (boot []))))"
proof -
  have r: "run darwin_env [Ready, WindowAllClosed] (boot []) = (Inr (), closed_on_darwin)"
    by (simp add: eval_defs)
  have a: "is_ready closed_on_darwin" and b: "length (windows closed_on_darwin) = 0"
    and c: "length (calls closed_on_darwin) \<notin> set (faults closed_on_darwin)"
    and d: "Suc (length (calls closed_on_darwin)) \<notin> set (faults closed_on_darwin)"
    by (simp_all add: eval_defs)
  have n: "next_id closed_on_darwin = 1"
    and l: "calls closed_on_darwin
              = [NewBrowserWindow (window_options darwin_env), LoadFile 0 ''dist/index.html'']"
    by (simp_all add: eval_defs)
  from activate_creates_one_window [OF r a b c d] r a b c d show ?thesis
    unfolding n l by (simp add: boot_fields deliver_unfold)
qed

text \<open>
  C3.  In any state reached by a run from the loaded module in which a window is open,
  an activation event returns normally, issues no command and leaves the window set as
  it is; so does the activate listener called on its own.
\<close>

theorem activate_with_window_open:
  assumes "run e evs (boot fs) = (r, h)" and "length (windows h) \<noteq> 0"
  shows "fst (deliver e Activate h) = Inr ()
       \<and> windows (snd (deliver e Activate h)) = windows h
       \<and> calls (snd (deliver e Activate h)) = calls h
       \<and> fst (call_callback e ActivateListener h) = Inr ()
       \<and> windows (snd (call_callback e ActivateListener h)) = windows h
       \<and> calls (snd (call_callback e ActivateListener h)) = calls h"
  using assms(2)
  by (cases rule: shell_inv_listeners [OF reachable_inv [OF assms(1)]])
     (simp_all add: deliver_unfold)

theorem activate_with_window_open_witness:
  "run linux_env [Ready] (boot []) = (Inr (), opened linux_env)
   \<and> length (windows (opened linux_env)) \<noteq> 0
   \<and> fst (deliver linux_env Activate (opened linux_env)) = Inr ()
   \<and> windows (snd (deliver linux_env Activate (opened linux_env))) = windows (opened linux_env)
   \<and> calls (snd (deliver linux_env Activate (opened linux_env))) = calls (opened linux_env)"
proof -
  have r: "run linux_env [Ready] (boot []) = (Inr (), opened linux_env)"
    by (simp add: eval_defs)
  have a: "length (windows (opened linux_env)) \<noteq> 0"
    by (simp add: eval_defs)
  from activate_with_window_open [OF r a] r a show ?thesis
    by simp
qed

section \<open>The last window closes\<close>

text \<open>
  C4.  On a platform other than \<^verbatim>\<open>darwin\<close>, in any state reached by a run from the loaded
  module in which no exception escaped and the process has not ended: no quit has been
  issued so far; the all-windows-closed event returns normally and appends exactly one
  quit to the command log; the process has then ended, and whatever events follow, the
  run delivers none of them: the state stays as it is, so no second quit is issued.
\<close>

theorem last_window_closed_quits_once:
  assumes "platform e \<noteq> ''darwin''" and "run e evs (boot fs) = (Inr (), h)" and "\<not> exited h"
  shows "AppQuit \<notin> set (calls h)
       \<and> fst (deliver e WindowAllClosed h) = Inr ()
       \<and> calls (snd (deliver e WindowAllClosed h)) = calls h @ [AppQuit]
       \<and> exited (snd (deliver e WindowAllClosed h))
       \<and> (\<forall>evs'. run e evs' (snd (deliver e WindowAllClosed h))
                    = (Inr (), snd (deliver e WindowAllClosed h)))"
proof -
  have inv: "shell_inv h" by (rule reachable_inv [OF assms(2)])
  with assms(3) have q: "AppQuit \<notin> set (calls h)" by (simp add: shell_inv_def)
  have d: "deliver e WindowAllClosed h
             = (Inr (), h\<lparr>windows := [], calls := calls h @ [AppQuit], exited := True\<rparr>)"
    using assms(1)
    by (cases rule: shell_inv_listeners [OF inv]) (simp_all add: deliver_unfold)
  show ?thesis
    using q unfolding d by (simp add: run_exited)
qed

theorem last_window_closed_quits_once_witness:
  "platform linux_env \<noteq> ''darwin''
   \<and> run linux_env [Ready] (boot []) = (Inr (), opened linux_env)
   \<and> exited (opened linux_env) = False
   \<and> AppQuit \<notin> set (calls (opened linux_env))
   \<and> calls (snd (deliver linux_env WindowAllClosed (opened linux_env)))
       = [NewBrowserWindow (window_options linux_env), LoadFile 0 ''dist/index.html'', AppQuit]
   \<and> exited (snd (deliver linux_env WindowAllClosed (opened linux_env)))
   \<and> run linux_env [Activate, WindowAllClosed, Ready]
         (snd (deliver linux_env WindowAllClosed (opened linux_env)))
       = (Inr (), snd (deliver linux_env WindowAllClosed (opened linux_env)))"
proof -
  have p: "platform linux_env \<noteq> ''darwin''"
    by (simp add: linux_env_def)
  have r: "run linux_env [Ready] (boot []) = (Inr (), opened linux_env)"
    by (simp add: eval_defs)
  have x: "\<not> exited (opened linux_env)"
    by (simp add: eval_defs)
  have l: "calls (opened linux_env)
             = [NewBrowserWindow (window_options linux_env), LoadFile 0 ''dist/index.html'']"
    by (simp add: eval_defs)
  from last_window_closed_quits_once [OF p r x] p r x show ?thesis
    by (simp add: l)
qed

text \<open>
  C5.  On \<^verbatim>\<open>darwin\<close>, in any state reached by any run from the loaded module: no quit has
  been issued and the process has not ended; the all-windows-closed event returns
  normally and changes nothing but the window set, which is empty afterwards; the
  listener itself does nothing at all.
\<close>

theorem darwin_stays_alive:
  assumes "platform e = ''darwin''" and "run e evs (boot fs) = (r, h)"
  shows "AppQuit \<notin> set (calls h) \<and> \<not> exited h
       \<and> deliver e WindowAllClosed h = (Inr (), h\<lparr>windows := []\<rparr>)
       \<and> length (windows (snd (deliver e WindowAllClosed h))) = 0
       \<and> call_callback e WindowAllClosedListener h = (Inr (), h)"
proof -
  have inv: "shell_inv h" by (rule reachable_inv [OF assms(2)])
  have "AppQuit \<notin> set (calls (snd (run e evs (boot fs))))"
    by (rule run_invariant [OF shell_inv_boot])
       (simp_all add: boot_fields darwin_deliver [OF assms(1)])
  with assms(2) have q: "AppQuit \<notin> set (calls h)" by simp
  with inv have x: "\<not> exited h" by (simp add: shell_inv_def)
  have d: "deliver e WindowAllClosed h = (Inr (), h\<lparr>windows := []\<rparr>)"
    using assms(1)
    by (cases rule: shell_inv_listeners [OF inv]) (simp_all add: deliver_unfold)
  show ?thesis
    using q x assms(1) unfolding d by simp
qed

theorem darwin_stays_alive_witness:
  "platform darwin_env = ''darwin''
   \<and> run darwin_env [Ready] (boot []) = (Inr (), opened darwin_env)
   \<and> AppQuit \<notin> set (calls (opened darwin_env)) \<and> exited (opened darwin_env) = False
   \<and> deliver darwin_env WindowAllClosed (opened darwin_env)
       = (Inr (), (opened darwin_env)\<lparr>windows := []\<rparr>)
   \<and> length (windows (snd (deliver darwin_env WindowAllClosed (opened darwin_env)))) = 0"
proof -
  have p: "platform darwin_env = ''darwin''"
    by (simp add: darwin_env_def)
  have r: "run darwin_env [Ready] (boot []) = (Inr (), opened darwin_env)"
    by (simp add: eval_defs)
  from darwin_stays_alive [OF p r] p r show ?thesis
    by simp
qed

section \<open>The lifecycle as a whole\<close>

text \<open>
  C6.  In every state reached by a run from the loaded module: at most one window is
  open; while a window is open, no event makes the shell issue a window creation; and if
  no exception escaped and the ready continuation has run, an activation that returns
  normally leaves at least one window open.
\<close>

theorem lifecycle_invariant:
  assumes "run e evs (boot fs) = (r, h)"
  shows "length (windows h) \<le> 1
       \<and> (\<forall>ev opts. length (windows h) \<noteq> 0 \<longrightarrow>
             NewBrowserWindow opts \<notin> set (issued h (snd (deliver e ev h))))
       \<and> (r = Inr () \<and> is_ready h \<and> fst (deliver e Activate h) = Inr () \<longrightarrow>
             1 \<le> length (windows (snd (deliver e Activate h))))"
proof -
  have inv: "shell_inv h" by (rule reachable_inv [OF assms])
  then have one: "length (windows h) \<le> 1" by (simp add: shell_inv_def)
  have dup: "\<forall>ev opts. length (windows h) \<noteq> 0 \<longrightarrow>
               NewBrowserWindow opts \<notin> set (issued h (snd (deliver e ev h)))"
    using deliver_create [OF inv] by auto
  have act: "1 \<le> length (windows (snd (deliver e Activate h)))"
    if "r = Inr ()" and "is_ready h" and ok: "fst (deliver e Activate h) = Inr ()"
  proof -
    from that assms have "shell_ok h" using reachable_ok by simp
    with that have l: "listeners h = [(''window-all-closed'', WindowAllClosedListener), (''activate'', ActivateListener)]"
      by (simp add: shell_ok_def)
    show ?thesis
      using ok
      by (cases rule: createWindow_cases [of h]; cases "windows h = []")
         (simp_all add: l deliver_unfold Suc_le_eq)
  qed
  from one dup act show ?thesis by blast
qed

theorem lifecycle_invariant_witness:
  "run darwin_env [Ready, WindowAllClosed] (boot []) = (Inr (), closed_on_darwin)
   \<and> is_ready closed_on_darwin
   \<and> fst (deliver darwin_env Activate closed_on_darwin) = Inr ()
   \<and> 1 \<le> length (windows (snd (deliver darwin_env Activate closed_on_darwin)))
   \<and> run darwin_env [Ready] (boot []) = (Inr (), opened darwin_env)
   \<and> length (windows (opened darwin_env)) \<noteq> 0
   \<and> length (windows (opened darwin_env)) \<le> 1
   \<and> NewBrowserWindow (window_options darwin_env)
        \<notin> set (issued (opened darwin_env) (snd (deliver darwin_env Activate (opened darwin_env))))"
proof -
  have r: "run darwin_env [Ready, WindowAllClosed] (boot []) = (Inr (), closed_on_darwin)"
    by (simp add: eval_defs)
  have a: "is_ready closed_on_darwin"
    and b: "fst (deliver darwin_env Activate closed_on_darwin) = Inr ()"
    by (simp_all add: eval_defs)
  have r': "run darwin_env [Ready] (boot []) = (Inr (), opened darwin_env)"
    by (simp add: eval_defs)
  have c: "length (windows (opened darwin_env)) \<noteq> 0"
    by (simp add: eval_defs)
  from lifecycle_invariant [OF r] a b
  have 1: "1 \<le> length (windows (snd (deliver darwin_env Activate closed_on_darwin)))"
    by blast
  from lifecycle_invariant [OF r'] c
  have 2: "length (windows (opened darwin_env)) \<le> 1"
    and 3: "NewBrowserWindow (window_options darwin_env)
        \<notin> set (issued (opened darwin_env) (snd (deliver darwin_env Activate (opened darwin_env))))"
    by blast+
  from r a b 1 r' c 2 3 show ?thesis by blast
qed

text \<open>
  C8.  As long as no ready event has been delivered, whatever else has been: the host is
  not ready, no listener for \<^verbatim>\<open>'activate'\<close> is registered, an activation event returns
  normally and changes nothing, no window is open and no window creation has been issued.
\<close>

theorem activate_before_ready:
  assumes "Ready \<notin> set evs" and "run e evs (boot fs) = (r, h)"
  shows "\<not> is_ready h \<and> listeners_for ''activate'' h = []
       \<and> deliver e Activate h = (Inr (), h)
       \<and> windows h = [] \<and> (\<forall>opts. NewBrowserWindow opts \<notin> set (calls h))"
proof -
  let ?P = "\<lambda>h. \<not> is_ready h \<and> (\<forall>opts. NewBrowserWindow opts \<notin> set (calls h))"
  have "?P (snd (run e evs (boot fs)))"
  proof (rule run_invariant [OF shell_inv_boot])
    show "?P (boot fs)" by (simp add: boot_fields)
  next
    fix h ev
    assume ev: "ev \<in> set evs" and inv: "shell_inv h" and P: "?P h"
    from ev assms(1) have nr: "ev \<noteq> Ready" by auto
    have "NewBrowserWindow opts \<notin> set (calls (snd (deliver e ev h)))" for opts
    proof
      assume "NewBrowserWindow opts \<in> set (calls (snd (deliver e ev h)))"
      with deliver_calls [OF inv, of e ev] P
      have "NewBrowserWindow opts \<in> set (issued h (snd (deliver e ev h)))"
        by (metis Un_iff set_append)
      from deliver_create [OF inv this] nr P show False by simp
    qed
    with deliver_not_ready [OF inv _ nr, of e] P show "?P (snd (deliver e ev h))" by simp
  qed
  with assms(2) have P: "?P h" by simp
  have inv: "shell_inv h" by (rule reachable_inv [OF assms(2)])
  with P have l: "listeners h = [(''window-all-closed'', WindowAllClosedListener)]"
    and w: "windows h = []"
    by (simp_all add: shell_inv_def)
  from P w show ?thesis by (simp add: l emit_def listeners_for_def)
qed

theorem activate_before_ready_witness:
  "Ready \<notin> set [Activate, Activate]
   \<and> run darwin_env [Activate, Activate] (boot []) = (Inr (), boot [])
   \<and> is_ready (boot []) = False
   \<and> listeners_for ''activate'' (boot []) = []
   \<and> deliver darwin_env Activate (boot []) = (Inr (), boot [])
   \<and> windows (boot []) = []"
proof -
  have a: "Ready \<notin> set [Activate, Activate]"
    by simp
  have r: "run darwin_env [Activate, Activate] (boot []) = (Inr (), boot [])"
    by (simp add: eval_defs)
  from activate_before_ready [OF a r] a r show ?thesis
    by simp
qed

text \<open>
  C10.  In every state reached by a run from the loaded module, every open window and
  every window creation in the command log carries the one set of options of
  \<^verbatim>\<open>createWindow\<close>: 800 by 600 and the preload script \<^verbatim>\<open>preload.js\<close> joined to the
  directory of the module.
\<close>

theorem every_window_has_preload:
  assumes "run e evs (boot fs) = (r, h)"
  shows "(\<forall>w \<in> set (windows h). win_options w = window_options e)
       \<and> (\<forall>opts. NewBrowserWindow opts \<in> set (calls h) \<longrightarrow> opts = window_options e)
       \<and> window_options e = \<lparr>width = 800, height = 600,
            webPreferences = \<lparr>preload = path_join e (dirname e) ''preload.js''\<rparr>\<rparr>"
proof -
  let ?P = "\<lambda>h. (\<forall>w \<in> set (windows h). win_options w = window_options e)
       \<and> (\<forall>opts. NewBrowserWindow opts \<in> set (calls h) \<longrightarrow> opts = window_options e)"
  have "?P (snd (run e evs (boot fs)))"
  proof (rule run_invariant [OF shell_inv_boot])
    show "?P (boot fs)" by (simp add: boot_fields)
  next
    fix h ev
    assume inv: "shell_inv h" and P: "?P h"
    have "opts = window_options e"
      if "NewBrowserWindow opts \<in> set (calls (snd (deliver e ev h)))" for opts
    proof (cases "NewBrowserWindow opts \<in> set (calls h)")
      case True
      with P show ?thesis by simp
    next
      case False
      with deliver_calls [OF inv, of e ev] that
      have "NewBrowserWindow opts \<in> set (issued h (snd (deliver e ev h)))"
        by (metis Un_iff set_append)
      from deliver_create [OF inv this] show ?thesis by simp
    qed
    moreover have "win_options w = window_options e"
      if "w \<in> set (windows (snd (deliver e ev h)))" for w
      using deliver_windows [OF inv that] P by auto
    ultimately show "?P (snd (deliver e ev h))" by blast
  qed
  with assms show ?thesis by (simp add: window_options_def)
qed

theorem every_window_has_preload_witness:
  "run darwin_env [Ready, WindowAllClosed, Activate] (boot []) = (Inr (), reopened_on_darwin)
   \<and> windows reopened_on_darwin
       = [\<lparr>win_id = 1, win_options = window_options darwin_env, loaded = Some ''dist/index.html''\<rparr>]
   \<and> NewBrowserWindow (window_options darwin_env) \<in> set (calls reopened_on_darwin)
   \<and> window_options darwin_env
       = \<lparr>width = 800, height = 600, webPreferences = \<lparr>preload = ''/app/dist/preload.js''\<rparr>\<rparr>"
proof -
  have r: "run darwin_env [Ready, WindowAllClosed, Activate] (boot []) = (Inr (), reopened_on_darwin)"
    by (simp add: eval_defs)
  have w: "length (windows reopened_on_darwin) = 1" and i: "win_id (hd (windows reopened_on_darwin)) = 1"
    and d: "loaded (hd (windows reopened_on_darwin)) = Some ''dist/index.html''"
    and c: "hd (calls reopened_on_darwin) = NewBrowserWindow (window_options darwin_env)"
    and n: "calls reopened_on_darwin \<noteq> []"
    by (simp_all add: eval_defs)
  from w obtain x where x: "windows reopened_on_darwin = [x]"
    by (cases "windows reopened_on_darwin") simp_all
  with every_window_has_preload [OF r] have "win_options x = window_options darwin_env"
    by simp
  with x i d have 1: "windows reopened_on_darwin
       = [\<lparr>win_id = 1, win_options = window_options darwin_env, loaded = Some ''dist/index.html''\<rparr>]"
    by (cases x) simp
  from c n have 2: "NewBrowserWindow (window_options darwin_env) \<in> set (calls reopened_on_darwin)"
    by (metis hd_in_set)
  from every_window_has_preload [OF r]
  have 3: "window_options darwin_env
       = \<lparr>width = 800, height = 600, webPreferences = \<lparr>preload = ''/app/dist/preload.js''\<rparr>\<rparr>"
    by (simp add: darwin_env_def sample_join_def)
  from r 1 2 3 show ?thesis by blast
qed

section \<open>Failures of the host\<close>

text \<open>
  C7, as stated, does not hold for the content load.  When the host fails the load of
  the ready continuation (the second call of the run), \<^verbatim>\<open>loadFile\<close> returns a rejected
  promise, \<^verbatim>\<open>createWindow\<close> drops it, and the continuation returns normally: the window
  stays open with no document, and the activate listener is registered as if nothing had
  happened.  The failure does not leave the handler as an exception.
\<close>

theorem load_failure_not_propagated_counterexample:
  "Suc (length (calls (boot [1]))) \<in> set (faults (boot [1]))
   \<and> fst (loadFile 0 ''dist/index.html''
          (snd (new_BrowserWindow (window_options linux_env) (boot [1]))))
       = Rejected (HostFailure (LoadFile 0 ''dist/index.html''))
   \<and> fst (call_callback linux_env ReadyContinuation (boot [1])) = Inr ()
   \<and> issued (boot [1]) load_failed
       = [NewBrowserWindow (window_options linux_env), LoadFile 0 ''dist/index.html'']
   \<and> map loaded (windows load_failed) = [None]
   \<and> listeners load_failed
       = [(''window-all-closed'', WindowAllClosedListener), (''activate'', ActivateListener)]"
  by (simp add: eval_defs)

text \<open>
  C7, amended.  Every callback delegates to the host without a guard, a retry or a
  recovery, and what becomes of a failure depends on the call.  For each of the three
  callbacks, in any state of the host, the command log only grows by the calls the
  callback issues, and:
  \<^item> where the callback creates a window (the ready continuation; the activate listener
    when no window is open) and the constructor throws, the callback ends with exactly
    that failure, the one creation is all it has issued, and it leaves windows and
    listeners as they were;
  \<^item> where the constructor returns and the content load fails, the callback returns
    normally, having issued the one creation and the one load and nothing after; the new
    window is open with no document;
  \<^item> a callback ends with an error only in the first case;
  \<^item> a callback that creates no window returns normally and issues at most a quit.
\<close>

theorem creation_failure_propagates:
  assumes "call_callback e cb h = (r, h')"
  shows "calls h' = calls h @ issued h h'
       \<and> ((cb = ReadyContinuation \<or> cb = ActivateListener \<and> length (windows h) = 0)
            \<and> length (calls h) \<in> set (faults h) \<longrightarrow>
            r = Inl (HostFailure (NewBrowserWindow (window_options e)))
            \<and> issued h h' = [NewBrowserWindow (window_options e)]
            \<and> windows h' = windows h \<and> listeners h' = listeners h)
       \<and> ((cb = ReadyContinuation \<or> cb = ActivateListener \<and> length (windows h) = 0)
            \<and> length (calls h) \<notin> set (faults h) \<and> Suc (length (calls h)) \<in> set (faults h) \<longrightarrow>
            r = Inr ()
            \<and> issued h h' = [NewBrowserWindow (window_options e),
                              LoadFile (next_id h) ''dist/index.html'']
            \<and> windows h' = windows h @ [\<lparr>win_id = next_id h, win_options = window_options e,
                                           loaded = None\<rparr>])
       \<and> (\<forall>err. r = Inl err \<longrightarrow>
            err = HostFailure (NewBrowserWindow (window_options e))
            \<and> (cb = ReadyContinuation \<or> cb = ActivateListener \<and> length (windows h) = 0)
            \<and> length (calls h) \<in> set (faults h))
       \<and> (\<not> (cb = ReadyContinuation \<or> cb = ActivateListener \<and> length (windows h) = 0) \<longrightarrow>
            r = Inr () \<and> set (issued h h') \<subseteq> {AppQuit})"
  using assms
  by (cases cb; cases rule: createWindow_cases [of h])
     (auto simp: deliver_unfold issued_def split: if_splits)

theorem creation_failure_propagates_witness:
  "call_callback linux_env ReadyContinuation (boot [0])
     = (Inl (HostFailure (NewBrowserWindow (window_options linux_env))), create_failed)
   \<and> length (calls (boot [0])) \<in> set (faults (boot [0]))
   \<and> issued (boot [0]) create_failed = [NewBrowserWindow (window_options linux_env)]
   \<and> windows create_failed = [] \<and> listeners create_failed = listeners (boot [0])
   \<and> length (windows closed_then_failing) = 0
   \<and> length (calls closed_then_failing) \<in> set (faults closed_then_failing)
   \<and> fst (call_callback darwin_env ActivateListener closed_then_failing)
       = Inl (HostFailure (NewBrowserWindow (window_options darwin_env)))
   \<and> issued closed_then_failing (snd (call_callback darwin_env ActivateListener closed_then_failing))
       = [NewBrowserWindow (window_options darwin_env)]
   \<and> call_callback linux_env ReadyContinuation (boot [1]) = (Inr (), load_failed)
   \<and> length (calls (boot [1])) \<notin> set (faults (boot [1]))
   \<and> Suc (length (calls (boot [1]))) \<in> set (faults (boot [1]))
   \<and> issued (boot [1]) load_failed
       = [NewBrowserWindow (window_options linux_env), LoadFile 0 ''dist/index.html'']
   \<and> windows load_failed
       = [\<lparr>win_id = 0, win_options = window_options linux_env, loaded = None\<rparr>]"
proof -
  let ?c = "Inl (HostFailure (NewBrowserWindow (window_options linux_env))) :: error + unit"
  have c: "call_callback linux_env ReadyContinuation (boot [0]) = (?c, create_failed)"
    by (simp add: eval_defs)
  have f: "length (calls (boot [0])) \<in> set (faults (boot [0]))"
    by (simp add: boot_fields)
  from creation_failure_propagates [OF c] f
  have 1: "issued (boot [0]) create_failed = [NewBrowserWindow (window_options linux_env)]"
    and 2: "windows create_failed = windows (boot [0])"
    and 3: "listeners create_failed = listeners (boot [0])"
    by blast+
  obtain q k where a: "call_callback darwin_env ActivateListener closed_then_failing = (q, k)"
    by (cases "call_callback darwin_env ActivateListener closed_then_failing")
  have w: "length (windows closed_then_failing) = 0"
    and g: "length (calls closed_then_failing) \<in> set (faults closed_then_failing)"
    by (simp_all add: eval_defs)
  from creation_failure_propagates [OF a] w g
  have "q = Inl (HostFailure (NewBrowserWindow (window_options darwin_env)))"
    and "issued closed_then_failing k = [NewBrowserWindow (window_options darwin_env)]"
    by blast+
  with a
  have 4: "fst (call_callback darwin_env ActivateListener closed_then_failing)
             = Inl (HostFailure (NewBrowserWindow (window_options darwin_env)))"
    and 5: "issued closed_then_failing (snd (call_callback darwin_env ActivateListener closed_then_failing))
             = [NewBrowserWindow (window_options darwin_env)]"
    by simp_all
  have l: "call_callback linux_env ReadyContinuation (boot [1]) = (Inr (), load_failed)"
    by (simp add: eval_defs)
  have m: "length (calls (boot [1])) \<notin> set (faults (boot [1]))"
    and n: "Suc (length (calls (boot [1]))) \<in> set (faults (boot [1]))"
    by (simp_all add: boot_fields)
  from creation_failure_propagates [OF l] m n
  have 6: "issued (boot [1]) load_failed
       = [NewBrowserWindow (window_options linux_env), LoadFile (next_id (boot [1])) ''dist/index.html'']"
    and 7: "windows load_failed
       = windows (boot [1]) @ [\<lparr>win_id = next_id (boot [1]), win_options = window_options linux_env,
                                loaded = None\<rparr>]"
    by blast+
  from c f 1 2 3 w g 4 5 l m n 6 7 show ?thesis
    by (simp add: boot_fields)
qed

section \<open>What the commands depend on\<close>

text \<open>
  C9, as stated, does not hold.  Two runs on the same platform, with the same events and
  the same window counts read (none), differ in their commands when the window
  constructor throws in one of them: the content load is then not issued.  They also
  differ when the module sits in another directory: the preload path of the window
  creation is another.
\<close>

theorem commands_not_determined_counterexample:
  "platform linux_env = platform linux_env
   \<and> observations linux_env [Ready] (boot []) = observations linux_env [Ready] (boot [0])
   \<and> commands linux_env [Ready] (boot []) \<noteq> commands linux_env [Ready] (boot [0])
   \<and> platform linux_env = platform other_env
   \<and> observations linux_env [Ready] (boot []) = observations other_env [Ready] (boot [])
   \<and> commands linux_env [Ready] (boot []) \<noteq> commands other_env [Ready] (boot [])"
  by (simp add: eval_defs)

text \<open>
  C9, amended.  For one process environment (platform and module directory), one
  sequence of events, and two hosts that have the same callbacks registered and the same
  flags (ready or not, ended or not), that fail the same calls to come and that show the
  shell the same window counts during the run, the two runs issue the same sequence of
  commands (window creation with its options, content load with its path, quit).  Nothing else of the
  hosts matters: not the windows that are open, their identities or contents, nor the
  calls of the past.
\<close>

theorem commands_determined:
  assumes "listeners h1 = listeners h2" and "ready_callbacks h1 = ready_callbacks h2"
    and "is_ready h1 = is_ready h2" and "exited h1 = exited h2"
    and "\<forall>i. (length (calls h1) + i \<in> set (faults h1)) = (length (calls h2) + i \<in> set (faults h2))"
    and "observations e evs h1 = observations e evs h2"
  shows "commands e evs h1 = commands e evs h2"
proof -
  from assms(1-5) have al: "alike h1 h2" by (simp add: alike_def)
  from assms(6) have "noted h1 (snd (run e evs h1)) @ [] = noted h2 (snd (run e evs h2)) @ []"
    by (simp add: observations_def)
  from run_agree [OF al this] show ?thesis by (simp add: commands_def)
qed

theorem commands_determined_witness:
  "listeners closed_once = listeners closed_twice
   \<and> ready_callbacks closed_once = ready_callbacks closed_twice
   \<and> is_ready closed_once = is_ready closed_twice
   \<and> exited closed_once = exited closed_twice
   \<and> (\<forall>i. (length (calls closed_once) + i \<in> set (faults closed_once))
          = (length (calls closed_twice) + i \<in> set (faults closed_twice)))
   \<and> calls closed_once \<noteq> calls closed_twice
   \<and> faults closed_once \<noteq> faults closed_twice
   \<and> next_id closed_once \<noteq> next_id closed_twice
   \<and> observations darwin_env [Activate, Activate, WindowAllClosed, Activate] closed_once = [0, 1, 0]
   \<and> observations darwin_env [Activate, Activate, WindowAllClosed, Activate] closed_twice = [0, 1, 0]
   \<and> commands darwin_env [Activate, Activate, WindowAllClosed, Activate] closed_once
       = commands darwin_env [Activate, Activate, WindowAllClosed, Activate] closed_twice"
proof -
  let ?evs = "[Activate, Activate, WindowAllClosed, Activate]"
  have a: "listeners closed_once = listeners closed_twice"
    and b: "ready_callbacks closed_once = ready_callbacks closed_twice"
    and c: "is_ready closed_once = is_ready closed_twice"
    and d: "exited closed_once = exited closed_twice"
    by (simp_all add: eval_defs)
  have l1: "length (calls closed_once) = 2" and f1: "faults closed_once = [5]"
    and l2: "length (calls closed_twice) = 4" and f2: "faults closed_twice = [7]"
    and n1: "next_id closed_once = 1" and n2: "next_id closed_twice = 2"
    by (simp_all add: eval_defs)
  have f: "\<forall>i. (length (calls closed_once) + i \<in> set (faults closed_once))
          = (length (calls closed_twice) + i \<in> set (faults closed_twice))"
    unfolding l1 l2 f1 f2 by auto
  have o1: "observations darwin_env ?evs closed_once = [0, 1, 0]"
    by (simp add: eval_defs)
  have o2: "observations darwin_env ?evs closed_twice = [0, 1, 0]"
    by (simp add: eval_defs)
  from o1 o2 have o: "observations darwin_env ?evs closed_once = observations darwin_env ?evs closed_twice"
    by simp
  from l1 l2 have x: "calls closed_once \<noteq> calls closed_twice"
    by auto
  from commands_determined [OF a b c d f o] a b c d f x o1 o2 show ?thesis
    by (simp add: f1 f2 n1 n2)
qed

end
